theory Spec2Isabelle
  imports Complex_Main "HOL-Library.Word"
begin

unbundle bit_operations_syntax

section \<open>JavaScript values\<close>

text \<open>
  A JavaScript string is a finite sequence of 16-bit code units; \<open>charCodeAt\<close> reads one
  of them, \<open>length\<close> counts them and \<open><\<close> compares two strings code unit by code unit.
\<close>

type_synonym jsstring = "16 word list"

definition str :: "string \<Rightarrow> jsstring" where
  "str cs = map (\<lambda>c. word_of_nat (of_char c :: nat)) cs"

text \<open>
  A JavaScript number, as far as this program can tell numbers apart: a finite value, or
  one of \<open>NaN\<close>, \<open>Infinity\<close> and \<open>-Infinity\<close>. Every finite double is a real number, and
  the operations the program applies to a finite number (\<open>% 64\<close>, the product with the
  power of two \<open>0.015625\<close> followed by \<open>Math.floor\<close>, and the conversion to 32 bits) are
  computed without rounding error, so that real arithmetic gives their results.
\<close>

datatype jsnum = Fin real | NaN | PosInf | NegInf

text \<open>
  The values a caller can pass. A \<open>Date\<close> is given by what its \<open>getTime()\<close> returns;
  \<open>JObject\<close> stands for every other object.
\<close>

datatype jsval =
    JUndefined
  | JNull
  | JBool bool
  | JNumber jsnum
  | JString jsstring
  | JDate jsnum
  | JObject

datatype error = TypeError

text \<open>\<open>xs[i]\<close> on an array: \<open>undefined\<close> (here \<open>None\<close>) outside the array.\<close>

definition elem_at :: "'a list \<Rightarrow> nat \<Rightarrow> 'a option" where
  "elem_at xs i = (if i < length xs then Some (xs ! i) else None)"

text \<open>The operand of a string concatenation: \<open>undefined\<close> is written out.\<close>

fun cat :: "jsstring option \<Rightarrow> jsstring" where
  "cat None = str ''undefined''"
| "cat (Some s) = s"

text \<open>\<open>s.substring(a, b)\<close> for non-negative integers: both ends are capped at the length
  and swapped when out of order.\<close>

definition substring :: "jsstring \<Rightarrow> nat \<Rightarrow> nat \<Rightarrow> jsstring" where
  "substring s a b =
    (let a1 = min a (length s); b1 = min b (length s);
         lo = min a1 b1; hi = max a1 b1
     in take (hi - lo) (drop lo s))"

text \<open>\<open>s < t\<close> on strings: the first differing code unit decides, a proper prefix is
  smaller.\<close>

fun js_less :: "jsstring \<Rightarrow> jsstring \<Rightarrow> bool" where
  "js_less [] [] = False"
| "js_less [] (y # ys) = True"
| "js_less (x # xs) [] = False"
| "js_less (x # xs) (y # ys) = (if x = y then js_less xs ys else x < y)"

section \<open>The dictionary and its lookup tables\<close>

definition CHAR_DICT_STR :: jsstring where
  "CHAR_DICT_STR = str ''0123456789ABCDEFGHIJKLMNOPQRSTUVWXYZ_abcdefghijklmnopqrstuvwxyz~''"

text \<open>\<open>CHAR_DICT_STR.split('')\<close>: the array of the 64 one-symbol strings.\<close>

definition CHAR_DICT :: "jsstring list" where
  "CHAR_DICT = map (\<lambda>c. [c]) CHAR_DICT_STR"

text \<open>
  \<open>ASCII_LOOKUP\<close>: an \<open>Int8Array\<close> of 128 entries, all \<open>-1\<close>, in which the loop over the
  dictionary stores the index of each symbol at the symbol's code.
\<close>

definition ASCII_LOOKUP :: "int list" where
  "ASCII_LOOKUP =
     foldl (\<lambda>tbl i. tbl[unat (CHAR_DICT_STR ! i) := int i])
       (replicate 128 (- 1)) [0..<length CHAR_DICT_STR]"

text \<open>\<open>DOUBLE_CHAR_DICT\<close>: for each 12-bit value, the symbol of its low 6 bits followed
  by the symbol of its high 6 bits.\<close>

definition DOUBLE_CHAR_DICT :: "jsstring list" where
  "DOUBLE_CHAR_DICT =
     map (\<lambda>i::nat. cat (elem_at CHAR_DICT (i AND 0x3F)) @ cat (elem_at CHAR_DICT (drop_bit 6 i AND 0x3F)))
       [0..<4096]"

section \<open>The SFC32 generator\<close>

text \<open>
  The four module variables \<open>_a\<close>, \<open>_b\<close>, \<open>_c\<close>, \<open>_d\<close>. Every assignment to them ends in
  \<open>| 0\<close>, \<open>^\<close> or \<open>|\<close>, so each holds a 32-bit pattern; \<open>+\<close> on \<open>32 word\<close> is the sum
  followed by \<open>| 0\<close>.
\<close>

record sfc32 =
  st_a :: "32 word"
  st_b :: "32 word"
  st_c :: "32 word"
  st_d :: "32 word"

definition nextInt32 :: "sfc32 \<Rightarrow> 32 word \<times> sfc32" where
  "nextInt32 s =
    (let t = st_a s + st_b s;
         d1 = st_d s + 1;
         a1 = st_b s XOR drop_bit 9 (st_b s);
         b1 = st_c s + push_bit 3 (st_c s);
         c1 = push_bit 21 (st_c s) OR drop_bit 11 (st_c s);
         c2 = c1 + t
     in (t + d1, \<lparr>st_a = a1, st_b = b1, st_c = c2, st_d = d1\<rparr>))"

section \<open>The randomness generator\<close>

text \<open>The loop of the slow path. \<open>i\<close> counts the symbols written so far; every round
  draws once and writes four, two or one symbol.\<close>

function slow_loop :: "int \<Rightarrow> int \<Rightarrow> jsstring \<Rightarrow> sfc32 \<Rightarrow> jsstring \<times> sfc32" where
  "slow_loop len i s g =
    (if i < len then
       (let r = fst (nextInt32 g); g1 = snd (nextInt32 g) in
        if i + 1 < len then
          (let s1 = s @ cat (elem_at DOUBLE_CHAR_DICT (unat (r AND 0xFFF))); i1 = i + 2 in
           if i1 = len then (s1, g1)
           else
             (let r1 = drop_bit 12 r in
              if i1 + 1 < len then
                (let s2 = s1 @ cat (elem_at DOUBLE_CHAR_DICT (unat (r1 AND 0xFFF))); i2 = i1 + 2 in
                 if i2 = len then (s2, g1) else slow_loop len i2 s2 g1)
              else slow_loop len i1 s1 g1))
        else (s @ cat (elem_at CHAR_DICT (unat (r AND 0x3F))), g1))
     else (s, g))"
  by pat_completeness auto
termination
  by (relation "measure (\<lambda>(len, i, s, g). nat (len - i))") auto

declare slow_loop.simps [simp del]

text \<open>The slow path of \<open>newRND\<close>: the length is raised to 12, capped at 1024, and the
  loop runs from the empty string.\<close>

definition newRND_slow :: "int \<Rightarrow> sfc32 \<Rightarrow> jsstring \<times> sfc32" where
  "newRND_slow length0 g =
    (let len = (if length0 < 12 then 12 else length0);
         len = (if len > 1024 then 1024 else len)
     in slow_loop len 0 [] g)"

text \<open>What both fast paths add to the string for one draw: two double lookups.\<close>

definition four_of :: "32 word \<Rightarrow> jsstring" where
  "four_of r = cat (elem_at DOUBLE_CHAR_DICT (unat (r AND 0xFFF))) @
               cat (elem_at DOUBLE_CHAR_DICT (unat (drop_bit 12 r AND 0xFFF)))"

definition newRND_12 :: "sfc32 \<Rightarrow> jsstring \<times> sfc32" where
  "newRND_12 g =
    (let (r, g) = nextInt32 g; s = four_of r;
         (r, g) = nextInt32 g; s = s @ four_of r;
         (r, g) = nextInt32 g; s = s @ four_of r
     in (s, g))"

definition newRND_21 :: "sfc32 \<Rightarrow> jsstring \<times> sfc32" where
  "newRND_21 g =
    (let (r, g) = nextInt32 g; s = four_of r;
         (r, g) = nextInt32 g; s = s @ four_of r;
         (r, g) = nextInt32 g; s = s @ four_of r;
         (r, g) = nextInt32 g; s = s @ four_of r;
         (r, g) = nextInt32 g; s = s @ four_of r;
         (r, g) = nextInt32 g; s = s @ cat (elem_at CHAR_DICT (unat (r AND 0x3F)))
     in (s, g))"

definition newRND :: "int \<Rightarrow> sfc32 \<Rightarrow> jsstring \<times> sfc32" where
  "newRND length0 g =
    (if length0 = 12 then newRND_12 g
     else if length0 = 21 then newRND_21 g
     else newRND_slow length0 g)"

section \<open>The timestamp codec\<close>

text \<open>The loop of \<open>decodeTime\<close>. It runs only on strings of 8 or more code units, so
  \<open>charCodeAt(i)\<close> is always inside the string, and \<open>code\<close> indexes the 128-entry table
  only after the test \<open>code > 127\<close>.\<close>

function decode_loop :: "jsstring \<Rightarrow> nat \<Rightarrow> int \<Rightarrow> int option" where
  "decode_loop tid i ts =
    (if i < 8 then
       (let code = unat (tid ! i) in
        if code > 127 then None
        else
          (let val = ASCII_LOOKUP ! code in
           if val = - 1 then None else decode_loop tid (i + 1) (ts * 64 + val)))
     else Some ts)"
  by pat_completeness auto
termination
  by (relation "measure (\<lambda>(tid, i, ts). 8 - i)") auto

declare decode_loop.simps [simp del]

text \<open>\<open>decodeTime\<close>: \<open>null\<close> is \<open>None\<close>. The empty string is the only falsy string.\<close>

definition decodeTime :: "jsval \<Rightarrow> int option" where
  "decodeTime tid =
    (case tid of
       JString s \<Rightarrow> if s = [] \<or> length s < 8 then None else decode_loop s 0 0
     | _ \<Rightarrow> None)"

definition DIV_64 :: real where
  "DIV_64 = 0.015625"

text \<open>\<open>ts < 0\<close>: false for \<open>NaN\<close>.\<close>

fun lt0 :: "jsnum \<Rightarrow> bool" where
  "lt0 (Fin q) = (q < 0)"
| "lt0 NaN = False"
| "lt0 PosInf = False"
| "lt0 NegInf = True"

text \<open>\<open>ts % 64\<close>: the remainder takes the sign of \<open>ts\<close>; \<open>NaN\<close> when \<open>ts\<close> is not
  finite.\<close>

fun rem64 :: "jsnum \<Rightarrow> jsnum" where
  "rem64 (Fin q) =
     Fin (if 0 \<le> q then q - 64 * of_int \<lfloor>q / 64\<rfloor> else - (- q - 64 * of_int \<lfloor>- q / 64\<rfloor>))"
| "rem64 NaN = NaN"
| "rem64 PosInf = NaN"
| "rem64 NegInf = NaN"

text \<open>\<open>Math.floor(ts * DIV_64)\<close>.\<close>

fun floor_div64 :: "jsnum \<Rightarrow> jsnum" where
  "floor_div64 (Fin q) = Fin (of_int \<lfloor>q * DIV_64\<rfloor>)"
| "floor_div64 NaN = NaN"
| "floor_div64 PosInf = PosInf"
| "floor_div64 NegInf = NegInf"

text \<open>\<open>CHAR_DICT[x]\<close> for a number \<open>x\<close>: an element only when \<open>x\<close> is an index of the
  array, \<open>undefined\<close> for a fraction, \<open>NaN\<close> or an infinity.\<close>

fun num_index :: "jsstring list \<Rightarrow> jsnum \<Rightarrow> jsstring option" where
  "num_index xs (Fin q) =
     (if of_int \<lfloor>q\<rfloor> = q \<and> 0 \<le> q then elem_at xs (nat \<lfloor>q\<rfloor>) else None)"
| "num_index xs NaN = None"
| "num_index xs PosInf = None"
| "num_index xs NegInf = None"

text \<open>The conversion of a number to 32 bits that \<open>&\<close> and \<open>>>>\<close> apply to their left
  operand: the integer part modulo \<open>2^32\<close>, and 0 for \<open>NaN\<close> and the infinities.\<close>

fun to_uint32 :: "jsnum \<Rightarrow> 32 word" where
  "to_uint32 (Fin q) = word_of_int (if 0 \<le> q then \<lfloor>q\<rfloor> else - \<lfloor>- q\<rfloor>)"
| "to_uint32 NaN = 0"
| "to_uint32 PosInf = 0"
| "to_uint32 NegInf = 0"

text \<open>
  \<open>encodeTime\<close>. The two low symbols are taken with \<open>%\<close> and \<open>Math.floor\<close> on the
  number; from \<open>c5\<close> on the code uses \<open>&\<close> and \<open>>>>=\<close>, which work on the low 32 bits
  of what is left. \<open>c0\<close> to \<open>c5\<close> are always symbols, so the sum \<open>c0 + ... + c7\<close>
  is a string concatenation throughout.
\<close>

definition encodeTime :: "jsval \<Rightarrow> error + jsstring" where
  "encodeTime tm =
    (case (case tm of JNumber n \<Rightarrow> Some n | JDate n \<Rightarrow> Some n | _ \<Rightarrow> None) of
       None \<Rightarrow> Inl TypeError
     | Some ts \<Rightarrow>
         if lt0 ts then Inl TypeError
         else
           (let c7 = num_index CHAR_DICT (rem64 ts); ts = floor_div64 ts;
                c6 = num_index CHAR_DICT (rem64 ts); ts = floor_div64 ts;
                w = to_uint32 ts;
                c5 = elem_at CHAR_DICT (unat (w AND 0x3F)); w = drop_bit 6 w;
                c4 = elem_at CHAR_DICT (unat (w AND 0x3F)); w = drop_bit 6 w;
                c3 = elem_at CHAR_DICT (unat (w AND 0x3F)); w = drop_bit 6 w;
                c2 = elem_at CHAR_DICT (unat (w AND 0x3F)); w = drop_bit 6 w;
                c1 = elem_at CHAR_DICT (unat (w AND 0x3F)); w = drop_bit 6 w;
                c0 = elem_at CHAR_DICT (unat (w AND 0x3F))
            in Inr (cat c0 @ cat c1 @ cat c2 @ cat c3 @ cat c4 @ cat c5 @ cat c6 @ cat c7)))"

section \<open>The identifier composer and parser\<close>

text \<open>A \<open>TimeIDRandom\<close> object; \<open>date\<close> is the time value of its \<open>Date\<close>.\<close>

record timeID_random =
  date :: int
  time :: int
  tID :: jsstring
  randomness :: jsstring
  tIDr :: jsstring

definition new_TimeIDRandom ::
    "int \<Rightarrow> int \<Rightarrow> jsstring \<Rightarrow> jsstring \<Rightarrow> jsstring \<Rightarrow> timeID_random" where
  "new_TimeIDRandom d t tid rnd delimiter =
     \<lparr>date = d, time = t, tID = tid, randomness = rnd, tIDr = tid @ delimiter @ rnd\<rparr>"

text \<open>\<open>TimeIDRandom.newID\<close>: \<open>encodeTime\<close> runs first, and when it throws no draw is
  made.\<close>

definition newID :: "jsval \<Rightarrow> int \<Rightarrow> jsstring \<Rightarrow> sfc32 \<Rightarrow> (error + jsstring) \<times> sfc32" where
  "newID dateTime length0 delimiter g =
    (case encodeTime dateTime of
       Inl e \<Rightarrow> (Inl e, g)
     | Inr tid \<Rightarrow> (let (rnd, g1) = newRND length0 g in (Inr (tid @ delimiter @ rnd), g1)))"

text \<open>\<open>TimeIDRandom.decodeTimeIDr\<close>: \<open>Inl TypeError\<close> is the \<open>throw\<close>, \<open>Inr None\<close> is
  \<open>undefined\<close>, also returned by falling off the end when \<open>tidr\<close> is not a string.\<close>

definition decodeTimeIDr :: "jsval \<Rightarrow> jsstring \<Rightarrow> error + timeID_random option" where
  "decodeTimeIDr tidr delimiter =
    (case tidr of
       JString s \<Rightarrow>
         if length s \<ge> 8 then
           (let timePart = substring s 0 8 in
            case decodeTime (JString timePart) of
              Some ts \<Rightarrow>
                (let startIndex = 8 + length delimiter;
                     mismatch = (if length delimiter > 0
                                 then substring s 8 startIndex \<noteq> delimiter else False)
                 in if mismatch then Inr None
                    else Inr (Some (new_TimeIDRandom ts ts timePart
                                      (substring s startIndex (length s)) delimiter)))
            | None \<Rightarrow> Inr None)
         else Inl TypeError
     | _ \<Rightarrow> Inr None)"

section \<open>Notions used in the statements and proofs\<close>

text \<open>The specification's clamp: values below the lower bound are raised to it, values
  above the upper bound are capped.\<close>

definition clamp :: "int \<Rightarrow> int \<Rightarrow> int \<Rightarrow> int" where
  "clamp n lo hi = (if n < lo then lo else if n > hi then hi else n)"

text \<open>The decoding loop as a recursion over the symbols it reads; \<open>decode_loop_syms\<close>
  below shows that this is what \<open>decode_loop\<close> computes.\<close>

fun decode_syms :: "jsstring \<Rightarrow> int \<Rightarrow> int option" where
  "decode_syms [] ts = Some ts"
| "decode_syms (c # cs) ts =
     (if unat c > 127 then None
      else if ASCII_LOOKUP ! unat c = - 1 then None
      else decode_syms cs (ts * 64 + ASCII_LOOKUP ! unat c))"

text \<open>The indices of the eight symbols that \<open>encodeTime\<close> writes for a non-negative
  integer \<open>t\<close>, first symbol first (\<open>encodeTime_number\<close> below): six from the 32 bits
  kept of \<open>t div 64 div 64\<close>, the first of them from its two highest bits only, then
  the two taken with \<open>%\<close>.\<close>

definition symbols_of :: "int \<Rightarrow> nat list" where
  "symbols_of t =
    (let m = t div 64 div 64 in
     [nat (m div 2 ^ 30 mod 4), nat (m div 2 ^ 24 mod 64), nat (m div 2 ^ 18 mod 64),
      nat (m div 2 ^ 12 mod 64), nat (m div 2 ^ 6 mod 64), nat (m mod 64),
      nat (t div 64 mod 64), nat (t mod 64)])"

section \<open>Facts about the generator\<close>

lemma rotl21: "push_bit 21 c OR drop_bit 11 c = word_rotl 21 (c :: 32 word)"
proof (rule bit_word_eqI)
  fix n assume n: "n < LENGTH(32)"
  show "bit (push_bit 21 c OR drop_bit 11 c) n = bit (word_rotl 21 c) n"
  proof (cases "n < 21")
    case True
    then have "(n + 11) mod 32 = n + 11" by simp
    with True n show ?thesis by (simp add: bit_simps add.commute)
  next
    case False
    with n have m: "(n + 11) mod 32 = n - 21" by (simp add: mod_if)
    have "\<not> bit c (11 + n)" using False by (auto dest: bit_imp_le_length)
    with False n m show ?thesis by (simp add: bit_simps)
  qed
qed

text \<open>
  C8. One call of \<open>nextInt32\<close> on any state \<open>(a, b, c, d)\<close> of four 32-bit words:
  with \<open>t = a + b\<close> modulo \<open>2^32\<close>, the new \<open>d\<close> is \<open>d + 1\<close> modulo \<open>2^32\<close>, the new \<open>a\<close>
  is \<open>b\<close> xor \<open>b\<close> shifted right logically by 9, the new \<open>b\<close> is \<open>c\<close> plus \<open>c\<close> shifted
  left by 3 modulo \<open>2^32\<close>, the new \<open>c\<close> is \<open>c\<close> rotated left by 21 plus \<open>t\<close> modulo
  \<open>2^32\<close>, and the draw is \<open>t\<close> plus the new \<open>d\<close> modulo \<open>2^32\<close>. The second half reads
  the same words as unsigned numbers.
\<close>

theorem nextInt32_advance:
  "(let t = a + b; r = nextInt32 \<lparr>st_a = a, st_b = b, st_c = c, st_d = d\<rparr> in
      st_d (snd r) = d + 1
    \<and> st_a (snd r) = b XOR drop_bit 9 b
    \<and> st_b (snd r) = c + push_bit 3 c
    \<and> st_c (snd r) = word_rotl 21 c + t
    \<and> fst r = t + (d + 1)
    \<and> unat t = (unat a + unat b) mod 2 ^ 32
    \<and> unat (st_d (snd r)) = (unat d + 1) mod 2 ^ 32
    \<and> unat (drop_bit 9 b) = unat b div 2 ^ 9
    \<and> unat (st_b (snd r)) = (unat c + unat c * 2 ^ 3 mod 2 ^ 32) mod 2 ^ 32
    \<and> unat (st_c (snd r)) = (unat (word_rotl 21 c) + unat t) mod 2 ^ 32
    \<and> unat (fst r) = (unat t + unat (st_d (snd r))) mod 2 ^ 32)"
proof -
  have sh: "unat (push_bit 3 c) = unat c * 2 ^ 3 mod 2 ^ 32"
    by (simp add: push_bit_eq_mult unat_word_ariths)
  have dr: "unat (drop_bit 9 b) = unat b div 2 ^ 9"
    by (simp add: unat_drop_bit_eq drop_bit_eq_div unat_div)
  show ?thesis
    unfolding nextInt32_def Let_def
    by (simp add: rotl21 sh dr unat_word_ariths)
qed

section \<open>Facts about the tables\<close>

lemma length_CHAR_DICT_STR: "length CHAR_DICT_STR = 64"
  by (simp add: CHAR_DICT_STR_def str_def)

lemma length_CHAR_DICT: "length CHAR_DICT = 64"
  by (simp add: CHAR_DICT_def length_CHAR_DICT_STR)

lemma elem_at_CHAR_DICT: "k < 64 \<Longrightarrow> elem_at CHAR_DICT k = Some [CHAR_DICT_STR ! k]"
  by (simp add: elem_at_def length_CHAR_DICT) (simp add: CHAR_DICT_def length_CHAR_DICT_STR)

lemma nat_and_63: "(i::nat) AND 0x3F = i mod 64"
proof -
  have "i AND mask 6 = i mod 2 ^ 6" by (simp only: take_bit_eq_mask [symmetric] take_bit_eq_mod)
  then show ?thesis by (simp add: mask_eq_exp_minus_1)
qed

lemma length_DOUBLE_CHAR_DICT: "length DOUBLE_CHAR_DICT = 4096"
  by (simp add: DOUBLE_CHAR_DICT_def)

lemma elem_at_DOUBLE_CHAR_DICT:
  assumes "i < 4096"
  shows "elem_at DOUBLE_CHAR_DICT i =
         Some [CHAR_DICT_STR ! (i mod 64), CHAR_DICT_STR ! (i div 64 mod 64)]"
proof -
  have "DOUBLE_CHAR_DICT ! i =
        cat (elem_at CHAR_DICT (i AND 0x3F)) @ cat (elem_at CHAR_DICT (drop_bit 6 i AND 0x3F))"
    using assms unfolding DOUBLE_CHAR_DICT_def by (simp del: upt_rec_numeral)
  then show ?thesis
    using assms
    by (simp add: elem_at_def [of DOUBLE_CHAR_DICT] length_DOUBLE_CHAR_DICT nat_and_63
        elem_at_CHAR_DICT drop_bit_eq_div)
qed

lemma unat_and_FFF: "unat ((r::32 word) AND 0xFFF) < 4096"
proof -
  have "r AND 0xFFF = take_bit 12 r"
    by (simp add: take_bit_eq_mask mask_eq_exp_minus_1)
  then have "unat (r AND 0xFFF) = take_bit 12 (unat r)"
    by (simp only: unsigned_take_bit_eq)
  also have "\<dots> < 2 ^ 12" by (rule take_bit_nat_less_exp)
  finally show ?thesis by simp
qed

lemma unat_and_3F: "unat ((r::32 word) AND 0x3F) < 64"
proof -
  have "r AND 0x3F = take_bit 6 r"
    by (simp add: take_bit_eq_mask mask_eq_exp_minus_1)
  then have "unat (r AND 0x3F) = take_bit 6 (unat r)"
    by (simp only: unsigned_take_bit_eq)
  also have "\<dots> < 2 ^ 6" by (rule take_bit_nat_less_exp)
  finally show ?thesis by simp
qed

lemma length_double: "length (cat (elem_at DOUBLE_CHAR_DICT (unat ((r::32 word) AND 0xFFF)))) = 2"
  by (simp add: elem_at_DOUBLE_CHAR_DICT [OF unat_and_FFF])

lemma length_single: "length (cat (elem_at CHAR_DICT (unat ((r::32 word) AND 0x3F)))) = 1"
  by (simp add: elem_at_CHAR_DICT [OF unat_and_3F])

lemma length_four_of: "length (four_of r) = 4"
  by (simp add: four_of_def length_double)

section \<open>Facts about the randomness generator\<close>

lemma slow_loop_length:
  "0 \<le> i \<Longrightarrow> i \<le> len \<Longrightarrow> length s = nat i \<Longrightarrow> length (fst (slow_loop len i s g)) = nat len"
proof (induction len i s g rule: slow_loop.induct)
  case (1 len i s g)
  show ?case
    apply (subst slow_loop.simps)
    using 1
    apply (auto simp: Let_def length_double length_single)
    done
qed

lemma symbols_double:
  "set (cat (elem_at DOUBLE_CHAR_DICT (unat ((r::32 word) AND 0xFFF)))) \<subseteq> set CHAR_DICT_STR"
  by (simp add: elem_at_DOUBLE_CHAR_DICT [OF unat_and_FFF] length_CHAR_DICT_STR)

lemma symbols_single:
  "set (cat (elem_at CHAR_DICT (unat ((r::32 word) AND 0x3F)))) \<subseteq> set CHAR_DICT_STR"
  using unat_and_3F [of r]
  by (simp add: elem_at_CHAR_DICT [OF unat_and_3F] length_CHAR_DICT_STR)

lemma symbols_four_of: "set (four_of r) \<subseteq> set CHAR_DICT_STR"
  by (simp add: four_of_def symbols_double)

lemma slow_loop_symbols:
  "set s \<subseteq> set CHAR_DICT_STR \<Longrightarrow> set (fst (slow_loop len i s g)) \<subseteq> set CHAR_DICT_STR"
proof (induction len i s g rule: slow_loop.induct)
  case (1 len i s g)
  show ?case
    apply (subst slow_loop.simps)
    using 1
    apply (auto simp: Let_def symbols_double symbols_single
        dest: subsetD [OF symbols_double] subsetD [OF symbols_single])
    done
qed

lemma newRND_symbols: "set (fst (newRND n g)) \<subseteq> set CHAR_DICT_STR"
  by (simp add: newRND_def newRND_12_def newRND_21_def newRND_slow_def Let_def
      split_def symbols_four_of symbols_single slow_loop_symbols)

text \<open>
  C5. For every integer \<open>n\<close> and every state of the generator, \<open>newRND n\<close> returns a
  string of exactly \<open>clamp n 12 1024\<close> code units, each of them a symbol of the
  dictionary; for \<open>n = 5\<close> the length is 12 and for \<open>n = 2000\<close> it is 1024. The
  function has no failing branch, and no table lookup leaves its table (\<open>undefined\<close>
  would add nine code units).
\<close>

theorem newRND_length:
  "length (fst (newRND n g)) = nat (clamp n 12 1024)
   \<and> set (fst (newRND n g)) \<subseteq> set CHAR_DICT_STR
   \<and> length (fst (newRND 5 g)) = 12 \<and> length (fst (newRND 2000 g)) = 1024"
proof -
  have "length (fst (newRND k g)) = nat (clamp k 12 1024)" for k
    by (simp add: newRND_def newRND_12_def newRND_21_def newRND_slow_def clamp_def Let_def
        split_def length_four_of length_single slow_loop_length)
  from this [of n] this [of 5] this [of 2000] newRND_symbols [of n g] show ?thesis
    by (simp add: clamp_def)
qed

text \<open>
  C9. From every starting state, the fast path of \<open>newRND\<close> for length 12 returns the
  same string and the same final state as the slow path run with length 12, and the fast
  path for length 21 the same as the slow path run with length 21.
\<close>

theorem fast_paths_agree:
  "newRND 12 g = newRND_slow 12 g \<and> newRND 21 g = newRND_slow 21 g"
proof
  show "newRND 12 g = newRND_slow 12 g"
    by (simp add: newRND_def newRND_12_def newRND_slow_def four_of_def Let_def split_def
        slow_loop.simps [of 12 0] slow_loop.simps [of 12 4] slow_loop.simps [of 12 8])
  show "newRND 21 g = newRND_slow 21 g"
    by (simp add: newRND_def newRND_21_def newRND_slow_def four_of_def Let_def split_def
        slow_loop.simps [of 21 0] slow_loop.simps [of 21 4] slow_loop.simps [of 21 8]
        slow_loop.simps [of 21 12] slow_loop.simps [of 21 16] slow_loop.simps [of 21 20])
qed

section \<open>Facts about the timestamp codec\<close>

text \<open>The table that the initialisation loop leaves behind, in rows of 16 entries.\<close>

lemma ASCII_LOOKUP_table:
  "ASCII_LOOKUP =
       [- 1, - 1, - 1, - 1, - 1, - 1, - 1, - 1, - 1, - 1, - 1, - 1, - 1, - 1, - 1, - 1]
     @ [- 1, - 1, - 1, - 1, - 1, - 1, - 1, - 1, - 1, - 1, - 1, - 1, - 1, - 1, - 1, - 1]
     @ [- 1, - 1, - 1, - 1, - 1, - 1, - 1, - 1, - 1, - 1, - 1, - 1, - 1, - 1, - 1, - 1]
     @ [0, 1, 2, 3, 4, 5, 6, 7, 8, 9, - 1, - 1, - 1, - 1, - 1, - 1]
     @ [- 1, 10, 11, 12, 13, 14, 15, 16, 17, 18, 19, 20, 21, 22, 23, 24]
     @ [25, 26, 27, 28, 29, 30, 31, 32, 33, 34, 35, - 1, - 1, - 1, - 1, 36]
     @ [- 1, 37, 38, 39, 40, 41, 42, 43, 44, 45, 46, 47, 48, 49, 50, 51]
     @ [52, 53, 54, 55, 56, 57, 58, 59, 60, 61, 62, - 1, - 1, - 1, 63, - 1]"
  by code_simp

lemma ASCII_LOOKUP_all: "list_all (\<lambda>v. - 1 \<le> v \<and> v < 64) ASCII_LOOKUP"
  by (simp add: ASCII_LOOKUP_table)

lemma length_ASCII_LOOKUP: "length ASCII_LOOKUP = 128"
  by (simp add: ASCII_LOOKUP_table)

lemma ASCII_LOOKUP_range:
  assumes "c \<le> 127"
  shows "- 1 \<le> ASCII_LOOKUP ! c \<and> ASCII_LOOKUP ! c < 64"
  using assms ASCII_LOOKUP_all by (simp add: list_all_length length_ASCII_LOOKUP)

lemma dict_lookup_all:
  "list_all (\<lambda>k. unat (CHAR_DICT_STR ! k) \<le> 127 \<and> ASCII_LOOKUP ! unat (CHAR_DICT_STR ! k) = int k)
     [0..<64]"
  by (simp add: upt_rec CHAR_DICT_STR_def str_def ASCII_LOOKUP_table)

lemma dict_lookup:
  assumes "k < 64"
  shows "unat (CHAR_DICT_STR ! k) \<le> 127" and "ASCII_LOOKUP ! unat (CHAR_DICT_STR ! k) = int k"
  using assms dict_lookup_all by (simp_all add: list_all_length del: upt_rec_numeral)

lemma dict_increasing: "sorted_wrt (<) CHAR_DICT_STR"
  by (simp add: CHAR_DICT_STR_def str_def)

lemma decode_loop_syms:
  "i \<le> 8 \<Longrightarrow> 8 \<le> length s \<Longrightarrow> decode_loop s i ts = decode_syms (take (8 - i) (drop i s)) ts"
proof (induction s i ts rule: decode_loop.induct)
  case (1 tid i ts)
  show ?case
  proof (cases "i < 8")
    case False
    with 1(2) show ?thesis by (subst decode_loop.simps) simp
  next
    case True
    with 1(3) have "i < length tid" by simp
    then have d: "drop i tid = tid ! i # drop (Suc i) tid" by (simp add: Cons_nth_drop_Suc)
    from True have t: "8 - i = Suc (8 - (i + 1))" by simp
    have split: "take (8 - i) (drop i tid) = tid ! i # take (8 - (i + 1)) (drop (i + 1) tid)"
      by (subst t, subst d) simp
    show ?thesis
    proof (cases "unat (tid ! i) > 127 \<or> ASCII_LOOKUP ! unat (tid ! i) = - 1")
      case True
      then show ?thesis by (auto simp: decode_loop.simps [of tid i] split Let_def \<open>i < 8\<close>)
    next
      case False
      with \<open>i < 8\<close> 1(3)
      have "decode_loop tid (i + 1) (ts * 64 + ASCII_LOOKUP ! unat (tid ! i)) =
            decode_syms (take (8 - (i + 1)) (drop (i + 1) tid)) (ts * 64 + ASCII_LOOKUP ! unat (tid ! i))"
        by (intro 1(1)) auto
      with False \<open>i < 8\<close> show ?thesis
        by (simp add: decode_loop.simps [of tid i] split Let_def)
    qed
  qed
qed

lemma decodeTime_syms:
  "decodeTime (JString s) = (if length s < 8 then None else decode_syms (take 8 s) 0)"
  by (auto simp: decodeTime_def decode_loop_syms)

lemma decodeTime_prefix:
  "8 \<le> length s \<Longrightarrow> decodeTime (JString (s @ x)) = decodeTime (JString s)"
  by (simp add: decodeTime_syms)

lemma decode_loop_bound:
  "decode_loop s i ts = Some v \<Longrightarrow> i \<le> 8 \<Longrightarrow> 0 \<le> ts \<Longrightarrow> ts < 64 ^ i
   \<Longrightarrow> 0 \<le> v \<and> v < 64 ^ 8"
proof (induction s i ts rule: decode_loop.induct)
  case (1 tid i ts)
  show ?case
  proof (cases "i < 8")
    case False
    with 1 show ?thesis by (simp add: decode_loop.simps [of tid i])
  next
    case True
    define code where "code = unat (tid ! i)"
    define val where "val = ASCII_LOOKUP ! code"
    from True 1(2) have c: "\<not> code > 127" and nv: "val \<noteq> - 1"
      and rec: "decode_loop tid (i + 1) (ts * 64 + val) = Some v"
      by (auto simp: decode_loop.simps [of tid i] Let_def code_def val_def split: if_splits)
    from c have "- 1 \<le> val \<and> val < 64" unfolding val_def by (intro ASCII_LOOKUP_range) simp
    with nv have v: "0 \<le> val" "val < 64" by auto
    have "ts * 64 + val < 64 ^ (i + 1)"
    proof -
      have "ts + 1 \<le> 64 ^ i" using 1(5) by simp
      then have "(ts + 1) * 64 \<le> 64 ^ i * 64" by (rule mult_right_mono) simp
      with v show ?thesis by (simp add: algebra_simps)
    qed
    moreover have "0 \<le> ts * 64 + val" using v 1(4) by simp
    ultimately show ?thesis
      using 1(1) [OF True code_def c val_def nv rec] True by simp
  qed
qed

lemma decodeTime_bound:
  assumes "decodeTime x = Some v"
  shows "0 \<le> v \<and> v < 2 ^ 48"
proof -
  from assms obtain s where "x = JString s" and "decode_loop s 0 0 = Some v"
    by (auto simp: decodeTime_def split: jsval.splits if_splits)
  from decode_loop_bound [OF this(2)] show ?thesis by simp
qed

lemma decodeTimeIDr_time:
  assumes "decodeTimeIDr x delim = Inr (Some r)"
  shows "\<exists>s. x = JString s \<and> 8 \<le> length s \<and> decodeTime (JString (substring s 0 8)) = Some (time r)"
  using assms
  by (auto simp: decodeTimeIDr_def Let_def new_TimeIDRandom_def
      split: jsval.splits if_splits option.splits)

text \<open>
  C10. Whatever the input, a value returned by \<open>decodeTime\<close> (a result other than
  \<open>null\<close>) is an integer \<open>v\<close> with \<open>0 \<le> v < 64^8 = 2^48\<close>, and the \<open>time\<close> field of
  every object returned by \<open>decodeTimeIDr\<close> lies in the same range.
\<close>

theorem decoded_value_range:
  "(decodeTime x = Some v \<longrightarrow> 0 \<le> v \<and> v < 64 ^ 8 \<and> (64::int) ^ 8 = 2 ^ 48)
   \<and> (decodeTimeIDr y delim = Inr (Some r) \<longrightarrow> 0 \<le> time r \<and> time r < 2 ^ 48)"
proof (intro conjI impI)
  assume "decodeTime x = Some v"
  from decodeTime_bound [OF this] show "0 \<le> v" "v < 64 ^ 8" by simp_all
  show "(64::int) ^ 8 = 2 ^ 48" by simp
next
  assume "decodeTimeIDr y delim = Inr (Some r)"
  from decodeTimeIDr_time [OF this] obtain s
    where "decodeTime (JString (substring s 0 8)) = Some (time r)" by blast
  from decodeTime_bound [OF this] show "0 \<le> time r" "time r < 2 ^ 48" by simp_all
qed

theorem decoded_value_range_witness:
  "decodeTime (JString (str ''0OkFuMW0'')) = Some 1700000000000
   \<and> (0::int) \<le> 1700000000000 \<and> (1700000000000::int) < 64 ^ 8
   \<and> (\<exists>r. decodeTimeIDr (JString (str ''0OkFuMW0-abcdefghijkl'')) (str ''-'') = Inr (Some r)
        \<and> 0 \<le> time r \<and> time r < 2 ^ 48)"
proof -
  have d: "decodeTime (JString (str ''0OkFuMW0'')) = Some 1700000000000"
    by (simp add: decodeTime_syms str_def ASCII_LOOKUP_table)
  have "decodeTimeIDr (JString (str ''0OkFuMW0-abcdefghijkl'')) (str ''-'') =
        Inr (Some (new_TimeIDRandom 1700000000000 1700000000000 (str ''0OkFuMW0'')
                    (str ''abcdefghijkl'') (str ''-'')))"
    by (simp add: decodeTimeIDr_def substring_def decodeTime_syms str_def ASCII_LOOKUP_table)
  then obtain r where
    p: "decodeTimeIDr (JString (str ''0OkFuMW0-abcdefghijkl'')) (str ''-'') = Inr (Some r)"
    by blast
  from decoded_value_range [of "JString (str ''0OkFuMW0'')" 1700000000000
      "JString (str ''0OkFuMW0-abcdefghijkl'')" "str ''-''" r] d p
  show ?thesis by blast
qed

section \<open>The codec on integer timestamps\<close>

lemma rem64_int: "0 \<le> t \<Longrightarrow> rem64 (Fin (of_int t)) = Fin (of_int (t mod 64))"
proof -
  assume "0 \<le> t"
  have "\<lfloor>real_of_int t / 64\<rfloor> = t div 64"
    using floor_divide_of_int_eq [of t 64, where ?'a = real] by simp
  moreover have "real_of_int t - 64 * real_of_int (t div 64) = real_of_int (t mod 64)"
    by (simp add: minus_mult_div_eq_mod [symmetric])
  ultimately show ?thesis using \<open>0 \<le> t\<close> by simp
qed

lemma floor_div64_int: "floor_div64 (Fin (of_int t)) = Fin (of_int (t div 64))"
  using floor_divide_of_int_eq [of t 64, where ?'a = real] by (simp add: DIV_64_def)

lemma num_index_int:
  "0 \<le> k \<Longrightarrow> k < 64 \<Longrightarrow> num_index CHAR_DICT (Fin (of_int k)) = Some [CHAR_DICT_STR ! nat k]"
  by (simp add: elem_at_CHAR_DICT)

lemma to_uint32_int: "0 \<le> m \<Longrightarrow> to_uint32 (Fin (of_int m)) = word_of_int m"
  by simp

lemma word_and_63: "(w :: 32 word) AND 0x3F = take_bit 6 w"
  by (simp add: take_bit_eq_mask mask_eq_exp_minus_1)

lemma sym_bits:
  assumes "0 \<le> m"
  shows "unat (drop_bit k (word_of_int m :: 32 word) AND 0x3F) =
         nat (take_bit (min 6 (32 - k)) (drop_bit k m))"
proof -
  have "unat (take_bit 6 (drop_bit k (word_of_int m :: 32 word))) =
        take_bit 6 (drop_bit k (nat (take_bit 32 m)))"
    by (simp add: unsigned_take_bit_eq unat_drop_bit_eq unsigned_of_int)
  also have "\<dots> = nat (take_bit 6 (drop_bit k (take_bit 32 m)))"
    by (simp add: drop_bit_nat_eq take_bit_nat_eq)
  also have "take_bit 6 (drop_bit k (take_bit 32 m)) = take_bit (min 6 (32 - k)) (drop_bit k m)"
    by (simp add: drop_bit_take_bit)
  finally show ?thesis by (simp only: word_and_63)
qed

lemma sym_bits_div:
  assumes "0 \<le> m" and "k + 6 \<le> 32"
  shows "unat (drop_bit k (word_of_int m :: 32 word) AND 0x3F) = nat (m div 2 ^ k mod 64)"
proof -
  from assms(2) have "min 6 (32 - k) = 6" by simp
  then have "nat (take_bit (min 6 (32 - k)) (drop_bit k m)) = nat (m div 2 ^ k mod 64)"
    by (simp add: take_bit_eq_mod drop_bit_eq_div)
  then show ?thesis by (simp only: sym_bits [OF assms(1)])
qed

lemma sym_bits_0:
  assumes "0 \<le> m"
  shows "unat ((word_of_int m :: 32 word) AND 0x3F) = nat (m mod 64)"
proof -
  have "drop_bit 0 (word_of_int m :: 32 word) = word_of_int m" by simp
  with sym_bits_div [OF assms, of 0] show ?thesis by (simp only: power_0 div_by_1)
qed

lemma sym_bits_30:
  assumes "0 \<le> m"
  shows "unat (drop_bit 30 (word_of_int m :: 32 word) AND 0x3F) = nat (m div 2 ^ 30 mod 4)"
proof -
  have "nat (take_bit (min 6 (32 - 30)) (drop_bit 30 m)) = nat (m div 2 ^ 30 mod 4)"
    by (simp add: take_bit_eq_mod drop_bit_eq_div)
  then show ?thesis by (simp only: sym_bits [OF assms])
qed

lemma encodeTime_number:
  assumes "0 \<le> t"
  shows "encodeTime (JNumber (Fin (of_int t))) = Inr (map ((!) CHAR_DICT_STR) (symbols_of t))"
proof -
  define m where "m = t div 64 div 64"
  have m: "0 \<le> m" and t1: "0 \<le> t div 64"
    using assms by (simp_all add: m_def pos_imp_zdiv_nonneg_iff)
  have l: "lt0 (Fin (of_int t)) = False" using assms by simp
  have r1: "rem64 (Fin (of_int t)) = Fin (of_int (t mod 64))" by (rule rem64_int [OF assms(1)])
  have r2: "rem64 (Fin (of_int (t div 64))) = Fin (of_int (t div 64 mod 64))"
    by (rule rem64_int [OF t1])
  have n1: "num_index CHAR_DICT (Fin (of_int (t mod 64))) = Some [CHAR_DICT_STR ! nat (t mod 64)]"
    by (rule num_index_int) simp_all
  have n2: "num_index CHAR_DICT (Fin (of_int (t div 64 mod 64))) =
            Some [CHAR_DICT_STR ! nat (t div 64 mod 64)]"
    by (rule num_index_int) simp_all
  have u: "to_uint32 (Fin (of_int m)) = word_of_int m" by (rule to_uint32_int [OF m])
  have sk:
    "unat (drop_bit 6 (word_of_int m :: 32 word) AND 0x3F) = nat (m div 2 ^ 6 mod 64)"
    "unat (drop_bit 12 (word_of_int m :: 32 word) AND 0x3F) = nat (m div 2 ^ 12 mod 64)"
    "unat (drop_bit 18 (word_of_int m :: 32 word) AND 0x3F) = nat (m div 2 ^ 18 mod 64)"
    "unat (drop_bit 24 (word_of_int m :: 32 word) AND 0x3F) = nat (m div 2 ^ 24 mod 64)"
    by (rule sym_bits_div [OF m], simp)+
  have b: "unat (drop_bit k (word_of_int m :: 32 word) AND 0x3F) < 64" for k
    by (rule unat_and_3F)
  have b0: "unat ((word_of_int m :: 32 word) AND 0x3F) < 64"
    by (rule unat_and_3F)
  have "encodeTime (JNumber (Fin (of_int t))) =
        Inr (cat (elem_at CHAR_DICT (unat (drop_bit 30 (word_of_int m :: 32 word) AND 0x3F))) @
             cat (elem_at CHAR_DICT (unat (drop_bit 24 (word_of_int m :: 32 word) AND 0x3F))) @
             cat (elem_at CHAR_DICT (unat (drop_bit 18 (word_of_int m :: 32 word) AND 0x3F))) @
             cat (elem_at CHAR_DICT (unat (drop_bit 12 (word_of_int m :: 32 word) AND 0x3F))) @
             cat (elem_at CHAR_DICT (unat (drop_bit 6 (word_of_int m :: 32 word) AND 0x3F))) @
             cat (elem_at CHAR_DICT (unat ((word_of_int m :: 32 word) AND 0x3F))) @
             [CHAR_DICT_STR ! nat (t div 64 mod 64)] @ [CHAR_DICT_STR ! nat (t mod 64)])"
    unfolding encodeTime_def
    by (simp only: jsval.case option.case l if_False Let_def r1 r2 n1 n2 floor_div64_int
        m_def [symmetric] u drop_bit_drop_bit cat.simps) simp
  also have "\<dots> =
        Inr [CHAR_DICT_STR ! unat (drop_bit 30 (word_of_int m :: 32 word) AND 0x3F),
             CHAR_DICT_STR ! unat (drop_bit 24 (word_of_int m :: 32 word) AND 0x3F),
             CHAR_DICT_STR ! unat (drop_bit 18 (word_of_int m :: 32 word) AND 0x3F),
             CHAR_DICT_STR ! unat (drop_bit 12 (word_of_int m :: 32 word) AND 0x3F),
             CHAR_DICT_STR ! unat (drop_bit 6 (word_of_int m :: 32 word) AND 0x3F),
             CHAR_DICT_STR ! unat ((word_of_int m :: 32 word) AND 0x3F),
             CHAR_DICT_STR ! nat (t div 64 mod 64), CHAR_DICT_STR ! nat (t mod 64)]"
    by (simp only: elem_at_CHAR_DICT [OF b] elem_at_CHAR_DICT [OF b0] cat.simps append.simps)
  also have "\<dots> = Inr (map ((!) CHAR_DICT_STR) (symbols_of t))"
    unfolding sym_bits_0 [OF m] sym_bits_30 [OF m] sk
    by (simp add: symbols_of_def m_def Let_def)
  finally show ?thesis .
qed

lemma encodeTime_date: "encodeTime (JDate n) = encodeTime (JNumber n)"
  by (simp add: encodeTime_def)

lemma symbols_of_bound: "0 \<le> t \<Longrightarrow> list_all (\<lambda>k. k < 64) (symbols_of t)"
  by (simp add: symbols_of_def Let_def nat_less_iff pos_imp_zdiv_nonneg_iff)

lemma decode_syms_dict:
  "list_all (\<lambda>k. k < 64) ks \<Longrightarrow>
   decode_syms (map ((!) CHAR_DICT_STR) ks) ts = Some (foldl (\<lambda>a k. a * 64 + int k) ts ks)"
proof (induction ks arbitrary: ts)
  case Nil
  show ?case by simp
next
  case (Cons k ks)
  then have "k < 64" by simp
  from dict_lookup [OF this] Cons show ?case by simp
qed

lemma digits_value:
  fixes t m :: int
  assumes m_def: "m = t div 64 div 64"
  shows "(((((((m div 2 ^ 30 mod 4) * 64 + m div 2 ^ 24 mod 64) * 64 + m div 2 ^ 18 mod 64) * 64
            + m div 2 ^ 12 mod 64) * 64 + m div 2 ^ 6 mod 64) * 64 + m mod 64) * 64
            + t div 64 mod 64) * 64 + t mod 64 = t mod 2 ^ 44"
proof -
  define y where "y = t div 2 ^ 44"
  have step: "x = 64 * (x div 64) + x mod 64" for x :: int
    by (rule mult_div_mod_eq [symmetric])
  have d: "m div 2 ^ k div 64 = m div 2 ^ (k + 6)" for k
    by (simp add: power_add zdiv_zmult2_eq)
  have e0: "t = 64 * (t div 64) + t mod 64" by (rule step)
  have e1: "t div 64 = 64 * m + t div 64 mod 64" unfolding m_def by (rule step)
  have e2: "m = 64 * (m div 2 ^ 6) + m mod 64"
    using step [of m] by simp
  have e3: "m div 2 ^ 6 = 64 * (m div 2 ^ 12) + m div 2 ^ 6 mod 64"
    using step [of "m div 2 ^ 6"] unfolding d by simp
  have e4: "m div 2 ^ 12 = 64 * (m div 2 ^ 18) + m div 2 ^ 12 mod 64"
    using step [of "m div 2 ^ 12"] unfolding d by simp
  have e5: "m div 2 ^ 18 = 64 * (m div 2 ^ 24) + m div 2 ^ 18 mod 64"
    using step [of "m div 2 ^ 18"] unfolding d by simp
  have e6: "m div 2 ^ 24 = 64 * (m div 2 ^ 30) + m div 2 ^ 24 mod 64"
    using step [of "m div 2 ^ 24"] unfolding d by simp
  have "m div 2 ^ 30 div 4 = y"
    by (simp add: m_def y_def zdiv_zmult2_eq [symmetric])
  then have e7: "m div 2 ^ 30 = 4 * y + m div 2 ^ 30 mod 4"
    using mult_div_mod_eq [of 4 "m div 2 ^ 30"] by simp
  have e8: "t mod 2 ^ 44 = t - 2 ^ 44 * y"
    unfolding y_def by (simp add: minus_mult_div_eq_mod)
  define a0 where "a0 = t mod 64"
  define a1 where "a1 = t div 64 mod 64"
  define b0 where "b0 = m mod 64"
  define b1 where "b1 = m div 2 ^ 6 mod 64"
  define b2 where "b2 = m div 2 ^ 12 mod 64"
  define b3 where "b3 = m div 2 ^ 18 mod 64"
  define b4 where "b4 = m div 2 ^ 24 mod 64"
  define b5 where "b5 = m div 2 ^ 30 mod 4"
  define t1 where "t1 = t div 64"
  define m1 where "m1 = m div 2 ^ 6"
  define m2 where "m2 = m div 2 ^ 12"
  define m3 where "m3 = m div 2 ^ 18"
  define m4 where "m4 = m div 2 ^ 24"
  define m5 where "m5 = m div 2 ^ 30"
  note defs = a0_def a1_def b0_def b1_def b2_def b3_def b4_def b5_def t1_def
    m1_def m2_def m3_def m4_def m5_def
  have lin: "t = 64 * t1 + a0" "t1 = 64 * m + a1" "m = 64 * m1 + b0" "m1 = 64 * m2 + b1"
    "m2 = 64 * m3 + b2" "m3 = 64 * m4 + b3" "m4 = 64 * m5 + b4" "m5 = 4 * y + b5"
    unfolding defs by (rule e0 e1 e2 e3 e4 e5 e6 e7)+
  have "((((((b5 * 64 + b4) * 64 + b3) * 64 + b2) * 64 + b1) * 64 + b0) * 64 + a1) * 64 + a0
        = t - 2 ^ 44 * y"
    unfolding lin by (simp add: algebra_simps)
  then show ?thesis unfolding defs e8 .
qed


lemma symbols_of_value:
  assumes "0 \<le> t"
  shows "foldl (\<lambda>a k. a * 64 + int k) 0 (symbols_of t) = t mod 2 ^ 44"
proof -
  define m where "m = t div 64 div 64"
  have nn: "0 \<le> m div 2 ^ 30 mod 4" "0 \<le> m div 2 ^ 24 mod 64" "0 \<le> m div 2 ^ 18 mod 64"
    "0 \<le> m div 2 ^ 12 mod 64" "0 \<le> m div 2 ^ 6 mod 64" "0 \<le> m mod 64"
    "0 \<le> t div 64 mod 64" "0 \<le> t mod 64"
    by simp_all
  have "foldl (\<lambda>a k. a * 64 + int k) 0 (symbols_of t) =
        (((((((m div 2 ^ 30 mod 4) * 64 + m div 2 ^ 24 mod 64) * 64 + m div 2 ^ 18 mod 64) * 64
            + m div 2 ^ 12 mod 64) * 64 + m div 2 ^ 6 mod 64) * 64 + m mod 64) * 64
            + t div 64 mod 64) * 64 + t mod 64"
    unfolding symbols_of_def Let_def m_def [symmetric]
    by (simp only: foldl_Cons foldl_Nil int_nat_eq nn if_True mult_zero_left add_0)
  then show ?thesis by (simp only: digits_value [OF m_def])
qed

lemma encode_decode_number:
  assumes "0 \<le> t"
  shows "\<exists>s. encodeTime (JNumber (Fin (of_int t))) = Inr s \<and> length s = 8
             \<and> decodeTime (JString s) = Some (t mod 2 ^ 44)"
proof -
  have "length (symbols_of t) = 8" by (simp add: symbols_of_def Let_def)
  then show ?thesis
    using assms
    by (simp add: encodeTime_number decodeTime_syms decode_syms_dict symbols_of_bound
        symbols_of_value)
qed

lemma roundtrip_below_2_44:
  assumes "0 \<le> t" and "t < 2 ^ 44"
  shows "\<exists>s. encodeTime (JNumber (Fin (of_int t))) = Inr s \<and> length s = 8
             \<and> decodeTime (JString s) = Some t"
  using encode_decode_number [OF assms(1)] assms by simp

section \<open>Order of the encodings\<close>

lemma dict_less_iff:
  assumes "k < 64" and "l < 64"
  shows "(CHAR_DICT_STR ! k < CHAR_DICT_STR ! l) = (k < l)"
    and "(CHAR_DICT_STR ! k = CHAR_DICT_STR ! l) = (k = l)"
proof -
  have mono: "CHAR_DICT_STR ! i < CHAR_DICT_STR ! j" if "i < j" "j < 64" for i j
    using sorted_wrt_nth_less [OF dict_increasing that(1)] that(2)
    by (simp add: length_CHAR_DICT_STR)
  consider "k < l" | "k = l" | "l < k" by linarith
  then have "(CHAR_DICT_STR ! k < CHAR_DICT_STR ! l) = (k < l)
           \<and> (CHAR_DICT_STR ! k = CHAR_DICT_STR ! l) = (k = l)"
  proof cases
    case 1
    from mono [OF 1 assms(2)] 1 show ?thesis by auto
  next
    case 2
    then show ?thesis by simp
  next
    case 3
    from mono [OF 3 assms(1)] 3 show ?thesis by auto
  qed
  then show "(CHAR_DICT_STR ! k < CHAR_DICT_STR ! l) = (k < l)"
    and "(CHAR_DICT_STR ! k = CHAR_DICT_STR ! l) = (k = l)" by simp_all
qed

lemma value_shift:
  "foldl (\<lambda>a k. a * 64 + int k) a ks = a * 64 ^ length ks + foldl (\<lambda>a k. a * 64 + int k) 0 ks"
proof (induction ks arbitrary: a)
  case Nil
  show ?case by simp
next
  case (Cons k ks)
  define V where "V = foldl (\<lambda>a k. a * 64 + int k)"
  have ih: "V b ks = b * 64 ^ length ks + V 0 ks" for b
    unfolding V_def by (rule Cons.IH)
  have "V a (k # ks) = V (a * 64 + int k) ks" by (simp add: V_def)
  also have "\<dots> = (a * 64 + int k) * 64 ^ length ks + V 0 ks" by (rule ih)
  finally have s1: "V a (k # ks) = (a * 64 + int k) * 64 ^ length ks + V 0 ks" .
  have "V 0 (k # ks) = V (int k) ks" by (simp add: V_def)
  also have "\<dots> = int k * 64 ^ length ks + V 0 ks" by (rule ih)
  finally have s2: "V 0 (k # ks) = int k * 64 ^ length ks + V 0 ks" .
  have "V a (k # ks) = a * 64 ^ length (k # ks) + V 0 (k # ks)"
    unfolding s1 s2 by (simp add: algebra_simps)
  then show ?case unfolding V_def .
qed

lemma value_bound:
  "list_all (\<lambda>k. k < 64) ks \<Longrightarrow>
   0 \<le> foldl (\<lambda>a k. a * 64 + int k) 0 ks \<and> foldl (\<lambda>a k. a * 64 + int k) 0 ks < 64 ^ length ks"
proof (induction ks rule: rev_induct)
  case Nil
  show ?case by simp
next
  case (snoc k ks)
  then have k: "k < 64" and ih: "0 \<le> foldl (\<lambda>a k. a * 64 + int k) 0 ks"
    "foldl (\<lambda>a k. a * 64 + int k) 0 ks + 1 \<le> 64 ^ length ks"
    by simp_all
  from ih(2) have "(foldl (\<lambda>a k. a * 64 + int k) 0 ks + 1) * 64 \<le> 64 ^ length ks * 64"
    by (rule mult_right_mono) simp
  with k ih(1) show ?case by (simp add: algebra_simps)
qed

lemma js_less_symbols:
  assumes "length ks = length ls"
    and "list_all (\<lambda>k. k < 64) ks" and "list_all (\<lambda>k. k < 64) ls"
  shows "js_less (map ((!) CHAR_DICT_STR) ks) (map ((!) CHAR_DICT_STR) ls) =
         (foldl (\<lambda>a k. a * 64 + int k) 0 ks < foldl (\<lambda>a k. a * 64 + int k) 0 ls)"
  using assms
proof (induction ks ls rule: list_induct2)
  case Nil
  show ?case by simp
next
  case (Cons k ks l ls)
  let ?V = "foldl (\<lambda>a k. a * 64 + int k) 0"
  let ?p = "(64::int) ^ length ks"
  from Cons have k: "k < 64" and l: "l < 64"
    and bk: "0 \<le> ?V ks" "?V ks < ?p" and bl: "0 \<le> ?V ls" "?V ls < ?p"
    using value_bound [of ks] value_bound [of ls] by simp_all
  have vk: "?V (k # ks) = int k * ?p + ?V ks"
    using value_shift [of "int k" ks] by simp
  have vl: "?V (l # ls) = int l * ?p + ?V ls"
    using value_shift [of "int l" ls] Cons.hyps by simp
  from Cons have ih: "js_less (map ((!) CHAR_DICT_STR) ks) (map ((!) CHAR_DICT_STR) ls) =
                      (?V ks < ?V ls)" by simp
  consider "k < l" | "k = l" | "l < k" by linarith
  then show ?case
  proof cases
    case 1
    then have "(int k + 1) * ?p \<le> int l * ?p" by (intro mult_right_mono) simp_all
    with bk bl have "?V (k # ks) < ?V (l # ls)" unfolding vk vl by (simp add: algebra_simps)
    with 1 show ?thesis using dict_less_iff [OF k l] by simp
  next
    case 2
    with ih show ?thesis unfolding vk vl by simp
  next
    case 3
    then have "(int l + 1) * ?p \<le> int k * ?p" by (intro mult_right_mono) simp_all
    with bk bl have "\<not> ?V (k # ks) < ?V (l # ls)" unfolding vk vl by (simp add: algebra_simps)
    with 3 show ?thesis using dict_less_iff [OF k l] by simp
  qed
qed

lemma order_below_2_44:
  assumes "0 \<le> t1" and "t1 < t2" and "t2 < 2 ^ 44"
  shows "\<exists>s1 s2. encodeTime (JNumber (Fin (of_int t1))) = Inr s1
              \<and> encodeTime (JNumber (Fin (of_int t2))) = Inr s2 \<and> js_less s1 s2"
proof -
  from assms have t2: "0 \<le> t2" and t1: "t1 < 2 ^ 44" by simp_all
  have len: "length (symbols_of t1) = length (symbols_of t2)"
    by (simp add: symbols_of_def Let_def)
  have "js_less (map ((!) CHAR_DICT_STR) (symbols_of t1)) (map ((!) CHAR_DICT_STR) (symbols_of t2))
        = (t1 mod 2 ^ 44 < t2 mod 2 ^ 44)"
    by (simp only: js_less_symbols [OF len symbols_of_bound [OF assms(1)] symbols_of_bound [OF t2]]
        symbols_of_value [OF assms(1)] symbols_of_value [OF t2])
  with assms t1 t2 show ?thesis
    by (simp add: encodeTime_number)
qed

section \<open>Composition with the parser, and the inputs that are rejected\<close>

text \<open>The outcomes of \<open>decodeTimeIDr\<close>.\<close>

lemma decodeTimeIDr_short:
  "length s < 8 \<Longrightarrow> decodeTimeIDr (JString s) delim = Inl TypeError"
  by (simp add: decodeTimeIDr_def)

lemma decodeTimeIDr_long:
  "8 \<le> length s \<Longrightarrow> \<exists>r. decodeTimeIDr (JString s) delim = Inr r"
  by (simp add: decodeTimeIDr_def Let_def split: option.splits)

lemma decodeTimeIDr_malformed:
  "8 \<le> length s \<Longrightarrow> decodeTime (JString (take 8 s)) = None
   \<Longrightarrow> decodeTimeIDr (JString s) delim = Inr None"
  by (simp add: decodeTimeIDr_def Let_def substring_def)

lemma decodeTimeIDr_mismatch:
  "8 \<le> length s \<Longrightarrow> delim \<noteq> [] \<Longrightarrow> take (length delim) (drop 8 s) \<noteq> delim
   \<Longrightarrow> decodeTimeIDr (JString s) delim = Inr None"
  by (auto simp: decodeTimeIDr_def Let_def substring_def min_def max_def split: option.splits)

lemma decodeTimeIDr_compose:
  assumes "length tid = 8" and "decodeTime (JString tid) = Some ts"
  shows "decodeTimeIDr (JString (tid @ delim @ rnd)) delim =
         Inr (Some (new_TimeIDRandom ts ts tid rnd delim))"
  using assms
  by (simp add: decodeTimeIDr_def Let_def substring_def min_def max_def)

lemma prefix_decode_number:
  assumes "0 \<le> t"
  shows "\<exists>s. encodeTime (JNumber (Fin (of_int t))) = Inr s
             \<and> decodeTime (JString (s @ x)) = Some (t mod 2 ^ 44)"
proof -
  from encode_decode_number [OF assms] obtain s
    where "encodeTime (JNumber (Fin (of_int t))) = Inr s" "length s = 8"
      "decodeTime (JString s) = Some (t mod 2 ^ 44)"
    by blast
  then show ?thesis by (simp add: decodeTime_prefix)
qed

lemma newID_parse_number:
  assumes "0 \<le> t"
  shows "\<exists>s r. fst (newID (JNumber (Fin (of_int t))) 12 delim g) = Inr s
             \<and> decodeTimeIDr (JString s) delim = Inr (Some r)
             \<and> time r = t mod 2 ^ 44 \<and> randomness r = fst (newRND 12 g)
             \<and> length (randomness r) = 12"
proof -
  from encode_decode_number [OF assms] obtain tid
    where e: "encodeTime (JNumber (Fin (of_int t))) = Inr tid" and l: "length tid = 8"
      and d: "decodeTime (JString tid) = Some (t mod 2 ^ 44)"
    by blast
  have n: "fst (newID (JNumber (Fin (of_int t))) 12 delim g) =
           Inr (tid @ delim @ fst (newRND 12 g))"
    by (simp add: newID_def e split_def Let_def)
  have "length (fst (newRND 12 g)) = 12"
    by (simp add: newRND_def newRND_12_def split_def Let_def length_four_of)
  with n decodeTimeIDr_compose [OF l d, of delim "fst (newRND 12 g)"] show ?thesis
    by (simp add: new_TimeIDRandom_def)
qed

lemma encodeTime_throws_iff:
  "(encodeTime v = Inl TypeError) =
   (case v of JNumber n \<Rightarrow> lt0 n | JDate n \<Rightarrow> lt0 n | _ \<Rightarrow> True)"
  by (simp add: encodeTime_def Let_def split: jsval.splits)

lemma encodeTime_negative: "q < 0 \<Longrightarrow> encodeTime (JNumber (Fin q)) = Inl TypeError"
  by (simp add: encodeTime_throws_iff)

lemma encodeTime_not_a_number:
  "encodeTime (JString s) = Inl TypeError" "encodeTime JNull = Inl TypeError"
  "encodeTime JUndefined = Inl TypeError" "encodeTime (JBool b) = Inl TypeError"
  "encodeTime JObject = Inl TypeError" "encodeTime (JNumber NegInf) = Inl TypeError"
  by (simp_all add: encodeTime_throws_iff)

section \<open>The codec at \<open>2^44\<close>, and inputs that are not timestamps\<close>

lemmas enc_eval = encodeTime_def DIV_64_def elem_at_CHAR_DICT CHAR_DICT_STR_def str_def

text \<open>
  C1. The round trip at \<open>t = 2^44 = 17592186044416\<close>, a timestamp inside the 48-bit
  range: \<open>encodeTime\<close> returns \<open>"00000000"\<close>, which \<open>decodeTime\<close> reads as 0 and not
  as \<open>t\<close>. After two divisions by 64 the code goes on with \<open>&\<close> and \<open>>>>=\<close>, which
  keep 32 of the 36 bits that are left, so bits 44 to 47 of the timestamp never reach the
  string.
\<close>

theorem roundtrip_fails_at_2_44:
  "(0::int) \<le> 17592186044416 \<and> (17592186044416::int) < 2 ^ 48
   \<and> encodeTime (JNumber (Fin 17592186044416)) = Inr (str ''00000000'')
   \<and> decodeTime (JString (str ''00000000'')) = Some 0"
  by (simp add: enc_eval decodeTime_syms ASCII_LOOKUP_table)

text \<open>
  C2. The order of the encodings at \<open>t1 = 2^44 - 1 < t2 = 2^44\<close>, both inside the 48-bit
  range: \<open>encodeTime t1\<close> is \<open>"3~~~~~~~"\<close> and \<open>encodeTime t2\<close> is \<open>"00000000"\<close>, and
  the first is not smaller than the second as a string; it is larger.
\<close>

theorem order_fails_at_2_44:
  "(17592186044415::int) < 17592186044416 \<and> (17592186044416::int) < 2 ^ 48
   \<and> encodeTime (JNumber (Fin 17592186044415)) = Inr (str ''3~~~~~~~'')
   \<and> encodeTime (JNumber (Fin 17592186044416)) = Inr (str ''00000000'')
   \<and> js_less (str ''3~~~~~~~'') (str ''00000000'') = False
   \<and> js_less (str ''00000000'') (str ''3~~~~~~~'') = True"
  by (simp add: enc_eval)

text \<open>
  C3. \<open>encodeTime\<close> on numbers that are not finite non-negative integers: for \<open>NaN\<close>
  (as a number, or as the time of an invalid \<open>Date\<close>) and for \<open>Infinity\<close> the test
  \<open>ts < 0\<close> is false, nothing is thrown and the 24 code units
  \<open>"000000undefinedundefined"\<close> are returned; for \<open>1.5\<close> the result is
  \<open>"0000000undefined"\<close>.
\<close>

theorem encodeTime_returns_on_NaN:
  "encodeTime (JNumber NaN) = Inr (str ''000000undefinedundefined'')
   \<and> encodeTime (JDate NaN) = Inr (str ''000000undefinedundefined'')
   \<and> encodeTime (JNumber PosInf) = Inr (str ''000000undefinedundefined'')
   \<and> encodeTime (JNumber (Fin 1.5)) = Inr (str ''0000000undefined'')"
  by (simp add: enc_eval)

text \<open>
  C4. \<open>decodeTimeIDr\<close> on a string of fewer than 8 code units: for \<open>"short"\<close> and for
  the empty string, with or without a delimiter, the call throws a \<open>TypeError\<close> and does
  not return \<open>undefined\<close>.
\<close>

theorem decodeTimeIDr_throws_on_short:
  "decodeTimeIDr (JString (str ''short'')) (str '''') = Inl TypeError
   \<and> decodeTimeIDr (JString (str ''short'')) (str ''-'') = Inl TypeError
   \<and> decodeTimeIDr (JString (str '''')) (str '''') = Inl TypeError"
  by (simp add: decodeTimeIDr_def str_def)

text \<open>
  C7. Prefix decoding at \<open>t = 2^44\<close>: \<open>encodeTime t\<close> is \<open>"00000000"\<close>, and
  \<open>decodeTime\<close> of that string followed by \<open>"_anything"\<close> is 0 and not \<open>t\<close>.
\<close>

theorem prefix_decode_fails_at_2_44:
  "encodeTime (JNumber (Fin 17592186044416)) = Inr (str ''00000000'')
   \<and> decodeTime (JString (str ''00000000'' @ str ''_anything'')) = Some 0"
  by (simp add: enc_eval decodeTime_syms ASCII_LOOKUP_table)

text \<open>
  C6. Composing and parsing at \<open>t = 2^44\<close>: from every state of the generator,
  \<open>newID t 12 "-"\<close> returns a string that \<open>decodeTimeIDr\<close> with the delimiter \<open>"-"\<close>
  parses into an object with 12 code units of randomness, whose \<open>time\<close> field is 0 and
  not \<open>t\<close>.
\<close>

theorem newID_parse_fails_at_2_44:
  "\<exists>s r. fst (newID (JNumber (Fin 17592186044416)) 12 (str ''-'') g) = Inr s
     \<and> decodeTimeIDr (JString s) (str ''-'') = Inr (Some r)
     \<and> time r = 0 \<and> length (randomness r) = 12"
proof -
  have e: "encodeTime (JNumber (Fin 17592186044416)) = Inr (str ''00000000'')"
    by (simp add: enc_eval)
  have d: "decodeTime (JString (str ''00000000'')) = Some 0"
    by (simp add: str_def decodeTime_syms ASCII_LOOKUP_table)
  have l: "length (str ''00000000'') = 8" by (simp add: str_def)
  define rnd where "rnd = fst (newRND 12 g)"
  have n: "fst (newID (JNumber (Fin 17592186044416)) 12 (str ''-'') g) =
        Inr (str ''00000000'' @ str ''-'' @ rnd)"
    by (simp add: newID_def e split_def rnd_def Let_def)
  have "length rnd = 12"
    unfolding rnd_def by (simp add: newRND_def newRND_12_def split_def Let_def length_four_of)
  with n decodeTimeIDr_compose [OF l d, of "str ''-''" rnd] show ?thesis
    by (simp add: new_TimeIDRandom_def)
qed

end
